theory Spec2Isabelle
  imports Main "HOL-Library.Word" "HOL-Library.Signed_Division"
begin

unbundle bit_operations_syntax

section \<open>Fixed-point arithmetic (threads/fixed\_point.h)\<close>

text \<open>
  The header works on C \<open>int\<close> (32 bits on the 80x86 target) and widens to
  \<open>int64_t\<close> for the fixed-times-fixed operations. Values are machine words:
  \<open>+\<close>, \<open>-\<close> and \<open>*\<close> wrap around, \<open>sint\<close> reads a word as two's complement.
\<close>

type_synonym int32 = "32 word"
type_synonym int64 = "64 word"

text \<open>
  The \<open>/\<close> of C on signed operands truncates the quotient towards zero. The processor's
  signed divide raises a divide error when the divisor is zero and when the quotient
  does not fit the operand width (the most negative value divided by \<open>-1\<close>); both are
  undefined behaviour in C. The error is a value of the model.
\<close>

datatype fault = DivideByZero | QuotientOverflow

definition c_div :: "'a::len word \<Rightarrow> 'a word \<Rightarrow> fault + 'a word" where
  "c_div a b =
     (if b = 0 then Inl DivideByZero
      else if sint a sdiv sint b = 2 ^ (LENGTH('a) - 1) then Inl QuotientOverflow
      else Inr (word_of_int (sint a sdiv sint b)))"

text \<open>\<open>#define FP_F (1 << 14)\<close>\<close>

definition FP_F :: int32 where
  "FP_F = push_bit 14 1"

definition fp_int_to_fp :: "int32 \<Rightarrow> int32" where
  "fp_int_to_fp n = n * FP_F"

definition fp_to_int_zero :: "int32 \<Rightarrow> fault + int32" where
  "fp_to_int_zero x = c_div x FP_F"

text \<open>\<open>FP_F / 2\<close> divides two positive constants; it is folded to \<open>8192\<close> by \<open>drop_bit\<close>.\<close>

definition fp_to_int_nearest :: "int32 \<Rightarrow> fault + int32" where
  "fp_to_int_nearest x =
     (if 0 \<le>s x then c_div (x + drop_bit 1 FP_F) FP_F
      else c_div (x - drop_bit 1 FP_F) FP_F)"

definition fp_add :: "int32 \<Rightarrow> int32 \<Rightarrow> int32" where
  "fp_add x y = x + y"

definition fp_sub :: "int32 \<Rightarrow> int32 \<Rightarrow> int32" where
  "fp_sub x y = x - y"

definition fp_add_int :: "int32 \<Rightarrow> int32 \<Rightarrow> int32" where
  "fp_add_int x n = x + n * FP_F"

definition fp_sub_int :: "int32 \<Rightarrow> int32 \<Rightarrow> int32" where
  "fp_sub_int x n = x - n * FP_F"

text \<open>
  \<open>(int64_t) x\<close> sign-extends (\<open>scast\<close>); the other operand is converted to
  \<open>int64_t\<close> by the usual arithmetic conversions, the same sign extension. The final
  \<open>(int)\<close> keeps the low 32 bits (\<open>ucast\<close> to the narrower word).
\<close>

definition narrow :: "fault + int64 \<Rightarrow> fault + int32" where
  "narrow r = (case r of Inl e \<Rightarrow> Inl e | Inr q \<Rightarrow> Inr (ucast q))"

definition fp_mul :: "int32 \<Rightarrow> int32 \<Rightarrow> fault + int32" where
  "fp_mul x y = narrow (c_div ((scast x :: int64) * scast y) (scast FP_F))"

definition fp_div :: "int32 \<Rightarrow> int32 \<Rightarrow> fault + int32" where
  "fp_div x y = narrow (c_div ((scast x :: int64) * scast FP_F) (scast y))"

definition fp_mul_int :: "int32 \<Rightarrow> int32 \<Rightarrow> int32" where
  "fp_mul_int x n = x * n"

definition fp_div_int :: "int32 \<Rightarrow> int32 \<Rightarrow> fault + int32" where
  "fp_div_int x n = c_div x n"


section \<open>The alarm clock (devices/timer.c, as described in ALARM\_CLOCK\_REFACTOR.md)\<close>

text \<open>
  \<open>ticks\<close>, \<open>next_wakeup_tick\<close> and \<open>wakeup_tick\<close> are \<open>int64_t\<close>, modelled as integers
  with the wrap-around of 64-bit two's complement written out: \<open>wrap64\<close> maps a sum to
  the value the machine stores. The clock starts at zero and is only incremented; the
  increment of a clock that already holds \<open>INT64_MAX\<close> has no successor state (\<open>step\<close>
  below returns \<open>None\<close> there).
\<close>

definition INT64_MAX :: int where
  "INT64_MAX = 2 ^ 63 - 1"

definition wrap64 :: "int \<Rightarrow> int" where
  "wrap64 k = (k + 2 ^ 63) mod 2 ^ 64 - 2 ^ 63"

text \<open>
  The fields of \<open>struct thread\<close> the alarm clock uses. The sleeping list links thread
  structures; a list entry is modelled by the thread's identifier with the \<open>wakeup_tick\<close>
  it stored before blocking (the field is written only by the thread itself, in
  \<open>timer_sleep\<close>, so it cannot change while the thread is on the list). The \<open>status\<close>
  field of every thread is kept in the kernel state, indexed by identifier.
\<close>

record thread =
  tid :: nat
  wakeup_tick :: int

datatype thread_status = THREAD_RUNNING | THREAD_READY | THREAD_BLOCKED | THREAD_DYING

text \<open>
  The kernel state the alarm clock touches: the statics \<open>ticks\<close>, \<open>next_wakeup_tick\<close> and
  \<open>sleeping_list\<close> of timer.c and the threads' \<open>status\<close>. Two fields observe the
  execution: \<open>unblock_log\<close> lists the calls of \<open>thread_unblock\<close> in order, each with the
  value of \<open>ticks\<close> at the call, and \<open>scan_compares\<close> counts the comparisons of a list
  entry's \<open>wakeup_tick\<close> with \<open>ticks\<close> made by the wake-up scan.
\<close>

record kernel =
  ticks :: int
  next_wakeup_tick :: int
  sleeping_list :: "thread list"
  status :: "nat \<Rightarrow> thread_status"
  unblock_log :: "(thread \<times> int) list"
  scan_compares :: nat

text \<open>
  Modelled from the spec: the comparator \<open>wakeup_time_less\<close> is passed to
  \<open>list_insert_ordered\<close> in the source, its body is missing. The registry is "ordered
  ascending by \<open>wake_tick\<close>", so the comparator is the strict order on \<open>wakeup_tick\<close>.
\<close>

definition wakeup_time_less :: "thread \<Rightarrow> thread \<Rightarrow> bool" where
  "wakeup_time_less a b \<longleftrightarrow> wakeup_tick a < wakeup_tick b"

text \<open>
  Modelled from the spec: \<open>list_insert_ordered\<close> belongs to the kernel's list library,
  which is missing. It inserts "at its sorted position", "insertion order among equal
  keys": the element goes before the first entry it is strictly less than.
\<close>

fun list_insert_ordered ::
  "thread list \<Rightarrow> thread \<Rightarrow> (thread \<Rightarrow> thread \<Rightarrow> bool) \<Rightarrow> thread list" where
  "list_insert_ordered [] e less_func = [e]"
| "list_insert_ordered (x # xs) e less_func =
     (if less_func e x then e # x # xs else x # list_insert_ordered xs e less_func)"

text \<open>
  Modelled from the spec: \<open>thread_block\<close> and \<open>thread_unblock\<close> belong to threads/thread.c,
  which is missing; the source only calls them. "Mark the unit Blocked and transfer
  control to the scheduler" and "transition it Ready (enqueue onto the external
  scheduler's ready collection)"; the source's comments agree: "sets status to BLOCKED and
  calls schedule()", "moves to ready\_list, sets status to READY". The scheduler and its
  ready list are outside the alarm clock: the call of \<open>thread_unblock\<close> is recorded in
  \<open>unblock_log\<close>.
\<close>

definition thread_block :: "nat \<Rightarrow> kernel \<Rightarrow> kernel" where
  "thread_block cur s = s\<lparr>status := (status s)(cur := THREAD_BLOCKED)\<rparr>"

definition thread_unblock :: "thread \<Rightarrow> kernel \<Rightarrow> kernel" where
  "thread_unblock t s =
     s\<lparr>status := (status s)(tid t := THREAD_READY),
       unblock_log := unblock_log s @ [(t, ticks s)]\<rparr>"

text \<open>
  Modelled from the spec: the first lines of \<open>timer_sleep\<close> are missing from the source.
  "A zero or negative duration is defined to return immediately without suspending", and
  "\<open>wake_tick = current_global_clock + ticks_to_wait\<close>", a sum of two \<open>int64_t\<close> stored in
  an \<open>int64_t\<close>. The rest is the source's: the
  insertion into the sleeping list, the update of \<open>next_wakeup_tick\<close> and the call of
  \<open>thread_block\<close>, made by the calling thread \<open>cur\<close>. Interrupts are disabled from before the
  insertion until after \<open>thread_block\<close>, so the whole body is one step with respect to
  \<open>timer_interrupt\<close>.
\<close>

definition timer_sleep :: "nat \<Rightarrow> int \<Rightarrow> kernel \<Rightarrow> kernel" where
  "timer_sleep cur n s =
     (if n \<le> 0 then s
      else
        let wakeup = wrap64 (ticks s + n);
            current = \<lparr>tid = cur, wakeup_tick = wakeup\<rparr>;
            s1 = s\<lparr>sleeping_list :=
                    list_insert_ordered (sleeping_list s) current wakeup_time_less\<rparr>;
            s2 = (if wakeup < next_wakeup_tick s1
                  then s1\<lparr>next_wakeup_tick := wakeup\<rparr> else s1)
        in thread_block cur s2)"

text \<open>
  Modelled from the spec: the loop of \<open>check_sleeping_threads\<close> is missing. "Walk from
  the front and, for each entry whose \<open>wake_tick <= Global Clock\<close>, remove it from the
  registry and transition it Ready; stop at the first entry whose
  \<open>wake_tick > Global Clock\<close>." The argument list is what is left of the sleeping list.
\<close>

fun wake_loop :: "thread list \<Rightarrow> kernel \<Rightarrow> kernel" where
  "wake_loop [] s = s\<lparr>sleeping_list := []\<rparr>"
| "wake_loop (t # ts) s =
     (if wakeup_tick t \<le> ticks s
      then wake_loop ts (thread_unblock t (s\<lparr>scan_compares := Suc (scan_compares s)\<rparr>))
      else s\<lparr>sleeping_list := t # ts, scan_compares := Suc (scan_compares s)\<rparr>)"

text \<open>
  \<open>check_sleeping_threads\<close>: the loop, then the source's update of \<open>next_wakeup_tick\<close>
  from the front of the list (\<open>list_front\<close> is reached only on a non-empty list).
\<close>

definition check_sleeping_threads :: "kernel \<Rightarrow> kernel" where
  "check_sleeping_threads s =
     (let s1 = wake_loop (sleeping_list s) s
      in case sleeping_list s1 of
           [] \<Rightarrow> s1\<lparr>next_wakeup_tick := INT64_MAX\<rparr>
         | t # _ \<Rightarrow> s1\<lparr>next_wakeup_tick := wakeup_tick t\<rparr>)"

text \<open>
  Modelled from the spec: \<open>thread_tick\<close> is the scheduler's "per-tick bookkeeping (out of
  scope)"; it touches none of the fields of the model.
\<close>

definition thread_tick :: "kernel \<Rightarrow> kernel" where
  "thread_tick s = s"

definition timer_interrupt :: "kernel \<Rightarrow> kernel" where
  "timer_interrupt s =
     (let s1 = thread_tick (s\<lparr>ticks := ticks s + 1\<rparr>)
      in if ticks s1 \<ge> next_wakeup_tick s1 then check_sleeping_threads s1 else s1)"

subsection \<open>Executions\<close>

text \<open>
  An execution is a sequence of events: a thread calls \<open>timer_sleep\<close>, or the timer
  interrupts. A blocked thread runs no code, so it calls nothing; which of the other
  threads holds the processor is the scheduler's choice, and any of them may be the
  caller. A request may ask for any number of ticks: when the sum with the clock leaves
  the range of \<open>int64_t\<close>, \<open>timer_sleep\<close> stores the wrapped value.
\<close>

datatype event = Sleep nat int | Tick

fun step :: "event \<Rightarrow> kernel \<Rightarrow> kernel option" where
  "step (Sleep cur n) s =
     (if status s cur = THREAD_BLOCKED then None
      else Some (timer_sleep cur n s))"
| "step Tick s =
     (if INT64_MAX \<le> ticks s then None else Some (timer_interrupt s))"

fun exec :: "event list \<Rightarrow> kernel \<Rightarrow> kernel option" where
  "exec [] s = Some s"
| "exec (e # es) s = (case step e s of None \<Rightarrow> None | Some s' \<Rightarrow> exec es s')"

text \<open>At boot the clock is zero, nobody sleeps and the cache holds the sentinel.\<close>

definition boot :: kernel where
  "boot = \<lparr>ticks = 0, next_wakeup_tick = INT64_MAX, sleeping_list = [],
           status = (\<lambda>_. THREAD_READY), unblock_log = [], scan_compares = 0\<rparr>"

subsection \<open>Executions without overflow\<close>



subsection \<open>The invariants of the alarm clock\<close>

text \<open>
  What holds of the state between any two events of any execution: the clock is not
  negative; the sleeping list is sorted by \<open>wakeup_tick\<close> and holds each thread once; the
  blocked threads are those on the list; \<open>next_wakeup_tick\<close> is the \<open>wakeup_tick\<close> at the
  front of the list, or the sentinel; no \<open>wakeup_tick\<close> exceeds the sentinel; every
  unblocking happened at or after the thread's \<open>wakeup_tick\<close>.
\<close>

definition alarm_inv :: "kernel \<Rightarrow> bool" where
  "alarm_inv s \<longleftrightarrow>
     0 \<le> ticks s \<and>
     sorted (map wakeup_tick (sleeping_list s)) \<and>
     distinct (map tid (sleeping_list s)) \<and>
     (\<forall>c. status s c = THREAD_BLOCKED \<longleftrightarrow> c \<in> tid ` set (sleeping_list s)) \<and>
     next_wakeup_tick s =
       (case sleeping_list s of [] \<Rightarrow> INT64_MAX | t # _ \<Rightarrow> wakeup_tick t) \<and>
     (\<forall>t \<in> set (sleeping_list s). wakeup_tick t \<le> INT64_MAX) \<and>
     (\<forall>(t, at) \<in> set (unblock_log s). wakeup_tick t \<le> at \<and> at \<le> ticks s)"


section \<open>Properties of the fixed-point arithmetic\<close>

subsection \<open>Signed division and conversions\<close>

lemma sdiv_mult_cancel: 
  assumes "b \<noteq> 0" shows "(a * b) sdiv b = (a::int)"
proof -
  have "sgn b * sgn b = 1" using assms by (simp add: sgn_if)
  moreover have "sgn a * \<bar>a\<bar> = a" by (simp add: sgn_if)
  ultimately have "sgn a * (sgn b * sgn b) * \<bar>a\<bar> = a" by simp
  then show ?thesis using assms
    by (simp add: signed_divide_int_def abs_mult sgn_mult ac_simps)
qed

lemma abs_sdiv_le: "\<bar>(a::int) sdiv b\<bar> \<le> \<bar>a\<bar> div \<bar>b\<bar>"
proof -
  have "0 \<le> \<bar>a\<bar> div \<bar>b\<bar>"
    by (cases "b = 0") (simp_all add: pos_imp_zdiv_nonneg_iff)
  then show ?thesis
    by (simp add: signed_divide_int_def abs_mult sgn_if)
qed

lemma abs_sdiv_le_abs: "\<bar>(a::int) sdiv b\<bar> \<le> \<bar>a\<bar>"
proof (cases "a = 0")
  case True
  then show ?thesis by simp
next
  case False
  then have "\<bar>a\<bar> div \<bar>b\<bar> \<le> \<bar>a\<bar>" by (intro int_div_le_self) simp
  with abs_sdiv_le [of a b] show ?thesis by linarith
qed

lemma sdiv_overflow_iff:
  fixes a b :: int
  assumes "- (2 ^ 31) \<le> a" "a < 2 ^ 31"
  shows "a sdiv b = 2 ^ 31 \<longleftrightarrow> a = - (2 ^ 31) \<and> b = - 1"
proof
  assume q: "a sdiv b = 2 ^ 31"
  have small: False if "2 \<le> \<bar>b\<bar>"
  proof -
    have "\<bar>a\<bar> div \<bar>b\<bar> \<le> \<bar>a\<bar> div 2"
      using that by (intro zdiv_mono2) simp_all
    also have "\<dots> \<le> 2 ^ 30" using assms by simp
    finally show False using abs_sdiv_le [of a b] q by simp
  qed
  consider "b = 0" | "b = 1" | "b = - 1" | "2 \<le> \<bar>b\<bar>" by linarith
  then show "a = - (2 ^ 31) \<and> b = - 1"
  proof cases
    case 1 with q show ?thesis by simp
  next
    case 2 with q assms show ?thesis by simp
  next
    case 3 with q show ?thesis by simp
  next
    case 4 with small show ?thesis by simp
  qed
next
  assume "a = - (2 ^ 31) \<and> b = - 1"
  then show "a sdiv b = 2 ^ 31" by simp
qed

lemma narrow_of_int: "(ucast (word_of_int k :: int64) :: int32) = word_of_int k"
  by transfer (simp add: min_def)

lemma sint_of_int_in_range:
  "- (2 ^ 31) \<le> k \<Longrightarrow> k < 2 ^ 31 \<Longrightarrow> sint (word_of_int k :: int32) = k"
  by (simp add: signed_take_bit_int_eq_self sint_sbintrunc')

lemma sint_FP_F: "sint FP_F = 16384"
  by (simp add: FP_F_def)

lemma FP_F_half: "drop_bit 1 FP_F = 8192"
  by (simp add: FP_F_def)

lemma FP_F_neq0: "FP_F \<noteq> 0"
  by (simp add: FP_F_def)

lemma sint_widen: "sint (scast (x :: int32) :: int64) = sint x"
  by (simp add: sint_up_scast is_up)

lemma sint32_bounds: "- (2 ^ 31) \<le> sint (x :: int32)" "sint x < 2 ^ 31"
  using sint_ge [of x] sint_lt [of x] by simp_all

lemma c_div_FP_F:
  "c_div (word_of_int (k * 16384) :: int32) FP_F = Inr (word_of_int k)"
  if "- (2 ^ 31) \<le> k * 16384" "k * 16384 < 2 ^ 31" for k :: int
proof -
  have "sint (word_of_int (k * 16384) :: int32) = k * 16384"
    using that by (rule sint_of_int_in_range)
  moreover have "(k * 16384) sdiv 16384 = k"
    by (rule sdiv_mult_cancel) simp
  moreover have "k \<noteq> 2147483648" using that by simp
  ultimately show ?thesis
    by (simp add: c_div_def FP_F_neq0 sint_FP_F)
qed

text \<open>
  Claim C8. For every \<open>n\<close> with \<open>-131072 \<le> n \<le> 131071\<close> (the integers whose scaled value
  \<open>n * 16384\<close> is a 32-bit signed integer), converting to fixed point and back with the
  truncating conversion gives \<open>n\<close> again, and the division does not fault.
\<close>

theorem fp_round_trip:
  assumes "- 131072 \<le> sint n" and "sint n \<le> 131071"
  shows "fp_to_int_zero (fp_int_to_fp n) = Inr n"
proof -
  have "n * FP_F = word_of_int (sint n * 16384)"
    by (simp add: FP_F_def)
  moreover have "c_div (word_of_int (sint n * 16384) :: int32) FP_F = Inr (word_of_int (sint n))"
    using assms by (intro c_div_FP_F) simp_all
  ultimately show ?thesis
    by (simp add: fp_to_int_zero_def fp_int_to_fp_def)
qed

text \<open>
  The smallest integer of the range, \<open>-131072\<close>, whose fixed-point value is the most
  negative \<open>int\<close>.
\<close>

theorem fp_round_trip_witness:
  "- 131072 \<le> sint (- 131072 :: int32) \<and> sint (- 131072 :: int32) \<le> 131071
   \<and> fp_to_int_zero (fp_int_to_fp (- 131072)) = Inr (- 131072)"
  using fp_round_trip [of "- 131072"] by simp

text \<open>
  Claim C7, amended. A halfway value is \<open>k * 16384 + 8192\<close> or its negation. For
  \<open>0 \<le> k \<le> 131070\<close> the non-negative halfway value rounds to \<open>k + 1\<close>; for
  \<open>0 \<le> k \<le> 131071\<close> the negative halfway value rounds to \<open>- (k + 1)\<close>, the integer of
  larger magnitude. These are all halfway values of a 32-bit \<open>int\<close> but the largest,
  \<open>131071 * 16384 + 8192\<close>, where adding \<open>FP_F / 2\<close> leaves the range of \<open>int\<close>.
\<close>

theorem fp_to_int_nearest_halfway:
  "(0 \<le> k \<and> k \<le> 131070 \<longrightarrow>
      fp_to_int_nearest (word_of_int (k * 16384 + 8192)) = Inr (word_of_int (k + 1)))
   \<and> (0 \<le> k \<and> k \<le> 131071 \<longrightarrow>
      fp_to_int_nearest (word_of_int (- (k * 16384 + 8192))) = Inr (word_of_int (- (k + 1))))"
proof (intro conjI impI)
  assume k: "0 \<le> k \<and> k \<le> 131070"
  let ?x = "word_of_int (k * 16384 + 8192) :: int32"
  have "sint ?x = k * 16384 + 8192"
    using k by (intro sint_of_int_in_range) simp_all
  then have "0 \<le>s ?x" using k by (simp add: word_sle_eq)
  then have "fp_to_int_nearest ?x = c_div (?x + 8192) FP_F"
    unfolding fp_to_int_nearest_def FP_F_half by simp
  also have "?x + 8192 = word_of_int ((k + 1) * 16384)"
    by (simp add: algebra_simps)
  also have "c_div \<dots> FP_F = Inr (word_of_int (k + 1))"
    using k by (intro c_div_FP_F) simp_all
  finally show "fp_to_int_nearest ?x = Inr (word_of_int (k + 1))" .
next
  assume k: "0 \<le> k \<and> k \<le> 131071"
  let ?x = "word_of_int (- (k * 16384 + 8192)) :: int32"
  have "sint ?x = - (k * 16384 + 8192)"
    using k by (intro sint_of_int_in_range) simp_all
  then have "\<not> 0 \<le>s ?x" using k by (simp add: word_sle_eq)
  then have "fp_to_int_nearest ?x = c_div (?x - 8192) FP_F"
    unfolding fp_to_int_nearest_def FP_F_half by simp
  also have "?x - 8192 = word_of_int ((- (k + 1)) * 16384)"
    by (simp add: algebra_simps)
  also have "c_div \<dots> FP_F = Inr (word_of_int (- (k + 1)))"
    using k by (intro c_div_FP_F) simp_all
  finally show "fp_to_int_nearest ?x = Inr (word_of_int (- (k + 1)))" .
qed

text \<open>
  The representation of \<open>1.5\<close> is \<open>24576\<close> and maps to \<open>2\<close>; that of \<open>-1.5\<close> maps to \<open>-2\<close>.
\<close>

theorem fp_to_int_nearest_halfway_witness:
  "fp_to_int_nearest 24576 = Inr 2 \<and> fp_to_int_nearest (- 24576) = Inr (- 2)"
  using fp_to_int_nearest_halfway [of 1] by simp

text \<open>
  Claim C7 as stated fails at \<open>k = 131071\<close>: the value \<open>131071 * 16384 + 8192\<close> is a 32-bit
  \<open>int\<close>, the sum with \<open>FP_F / 2\<close> wraps to the most negative \<open>int\<close>, and the result is
  \<open>-131072\<close>, not \<open>131072\<close>.
\<close>

theorem fp_to_int_nearest_halfway_counterexample:
  "(0::int) \<le> 131071
   \<and> fp_to_int_nearest (word_of_int (131071 * 16384 + 8192)) = Inr (word_of_int (- 131072))
   \<and> fp_to_int_nearest (word_of_int (131071 * 16384 + 8192)) \<noteq> Inr (word_of_int (131071 + 1))"
  by (simp add: fp_to_int_nearest_def FP_F_def c_div_def word_sle_eq)


lemma widen_eq_0_iff: "(scast (y :: int32) :: int64) = 0 \<longleftrightarrow> y = 0"
proof -
  have "(scast y :: int64) = 0 \<longleftrightarrow> sint (scast y :: int64) = 0"
    by (simp add: signed_eq_0_iff)
  also have "\<dots> \<longleftrightarrow> sint y = 0" by (simp add: sint_widen)
  also have "\<dots> \<longleftrightarrow> y = 0" by (simp add: signed_eq_0_iff)
  finally show ?thesis .
qed

lemma sint_widen_mult:
  "sint ((scast (x :: int32) :: int64) * scast (y :: int32)) = sint x * sint y"
proof -
  have "\<bar>sint x\<bar> \<le> 2 ^ 31" "\<bar>sint y\<bar> \<le> 2 ^ 31"
    using sint32_bounds [of x] sint32_bounds [of y] by simp_all
  then have "\<bar>sint x\<bar> * \<bar>sint y\<bar> \<le> 2 ^ 31 * 2 ^ 31"
    by (intro mult_mono) simp_all
  then have "\<bar>sint x * sint y\<bar> \<le> 2 ^ 62" by (simp add: abs_mult)
  then have "- (2 ^ 63) \<le> sint x * sint y" "sint x * sint y < 2 ^ 63" by simp_all
  then have "signed_take_bit 63 (sint x * sint y) = sint x * sint y"
    by (intro signed_take_bit_int_eq_self) simp_all
  then show ?thesis by (simp add: sint_word_mult sint_widen)
qed

text \<open>
  Claim C10. For every 32-bit \<open>x\<close> and every \<open>n\<close> with \<open>-131072 \<le> n \<le> 131071\<close>, the widened
  product of \<open>x\<close> with the fixed-point value of \<open>n\<close> does not fault and equals the direct
  wrap-around product \<open>fp_mul_int x n\<close>.
\<close>

theorem fp_mul_int_eq_fp_mul:
  assumes "- 131072 \<le> sint n" and "sint n \<le> 131071"
  shows "fp_mul x (fp_int_to_fp n) = Inr (fp_mul_int x n)"
proof -
  let ?p = "(scast x :: int64) * scast (fp_int_to_fp n)"
  have "fp_int_to_fp n = word_of_int (sint n * 16384)"
    by (simp add: fp_int_to_fp_def FP_F_def)
  moreover have "sint (word_of_int (sint n * 16384) :: int32) = sint n * 16384"
    using assms by (intro sint_of_int_in_range) simp_all
  ultimately have "sint ?p = sint x * (sint n * 16384)"
    by (simp add: sint_widen_mult)
  then have sp: "sint ?p = (sint x * sint n) * 16384" by simp
  have q: "sint ?p sdiv 16384 = sint x * sint n"
    unfolding sp by (rule sdiv_mult_cancel) simp
  have "sint x * sint n < 2 ^ 63"
    using sint_widen_mult [of x n] sint_lt [of "(scast x :: int64) * scast n"] by simp
  then have "sint x * sint n \<noteq> 2 ^ 63" by simp
  with q have c: "c_div ?p (scast FP_F) = Inr (word_of_int (sint x * sint n))"
    by (simp add: c_div_def widen_eq_0_iff FP_F_neq0 sint_widen sint_FP_F)
  have low: "(ucast (word_of_int (sint x * sint n) :: int64) :: int32) = x * n"
    unfolding narrow_of_int by simp
  show ?thesis
    by (simp only: fp_mul_def fp_mul_int_def narrow_def c sum.case low)
qed

text \<open>
  An instance whose product \<open>12345678 * (-7)\<close> lies in the range of \<open>int\<close>.
\<close>

theorem fp_mul_int_eq_fp_mul_witness:
  "- 131072 \<le> sint (- 7 :: int32) \<and> sint (- 7 :: int32) \<le> 131071
   \<and> fp_mul 12345678 (fp_int_to_fp (- 7)) = Inr (fp_mul_int 12345678 (- 7))"
  using fp_mul_int_eq_fp_mul [of "- 7" 12345678] by simp

lemma fp_div_quotient_fits:
  "sint ((scast (x :: int32) :: int64) * scast FP_F) sdiv sint (scast (y :: int32) :: int64) \<noteq> 2 ^ 63"
proof -
  have "\<bar>sint x * 16384\<bar> \<le> 2 ^ 45"
    using sint32_bounds [of x] by simp
  then have "\<bar>(sint x * 16384) sdiv sint y\<bar> \<le> 2 ^ 45"
    using abs_sdiv_le_abs [of "sint x * 16384" "sint y"] by linarith
  then show ?thesis
    by (simp add: sint_widen_mult sint_widen sint_FP_F)
qed

text \<open>
  Claim C9, amended. Neither division tests its divisor. \<open>fp_div\<close> faults exactly when the
  divisor is zero: the widened quotient always fits 64 bits. \<open>fp_div_int\<close> faults exactly
  when the divisor is zero or the most negative \<open>int\<close> is divided by \<open>-1\<close>.
\<close>

theorem division_defined_iff:
  "(isl (fp_div x y) \<longleftrightarrow> y = 0)
   \<and> (isl (fp_div_int x n) \<longleftrightarrow> n = 0 \<or> (sint x = - (2 ^ 31) \<and> sint n = - 1))"
proof
  show "isl (fp_div x y) \<longleftrightarrow> y = 0"
    using fp_div_quotient_fits [of x y]
    by (simp add: fp_div_def narrow_def c_div_def widen_eq_0_iff)
next
  have "sint x sdiv sint n = 2 ^ 31 \<longleftrightarrow> sint x = - (2 ^ 31) \<and> sint n = - 1"
    using sint32_bounds [of x] by (intro sdiv_overflow_iff)
  then show "isl (fp_div_int x n) \<longleftrightarrow> n = 0 \<or> (sint x = - (2 ^ 31) \<and> sint n = - 1)"
    by (auto simp add: fp_div_int_def c_div_def)
qed

text \<open>
  Claim C9 as stated fails for \<open>fp_div_int\<close>: the divisor \<open>-1\<close> is not zero, and dividing the
  most negative \<open>int\<close> by it faults.
\<close>

theorem fp_div_int_overflow_counterexample:
  "(- 1 :: int32) \<noteq> 0
   \<and> fp_div_int (word_of_int (- (2 ^ 31))) (- 1) = Inl QuotientOverflow"
  by (simp add: fp_div_int_def c_div_def)

section \<open>Properties of the alarm clock\<close>

subsection \<open>Ordered insertion and the wake-up loop\<close>

lemma set_list_insert_ordered:
  "set (list_insert_ordered xs e f) = insert e (set xs)"
  by (induction xs) auto

lemma sorted_list_insert_ordered:
  "sorted (map wakeup_tick xs) \<Longrightarrow>
   sorted (map wakeup_tick (list_insert_ordered xs e wakeup_time_less))"
  by (induction xs) (auto simp: set_list_insert_ordered wakeup_time_less_def)

lemma distinct_list_insert_ordered:
  "distinct (map tid xs) \<Longrightarrow> tid e \<notin> tid ` set xs \<Longrightarrow>
   distinct (map tid (list_insert_ordered xs e f))"
  by (induction xs) (auto simp: set_list_insert_ordered)

lemma front_list_insert_ordered:
  "list_insert_ordered xs e wakeup_time_less =
     (case xs of [] \<Rightarrow> [e]
      | x # ys \<Rightarrow> if wakeup_tick e < wakeup_tick x then e # xs
                  else x # list_insert_ordered ys e wakeup_time_less)"
  by (cases xs) (simp_all add: wakeup_time_less_def)

lemma ticks_wake_loop: "ticks (wake_loop xs s) = ticks s"
  by (induction xs arbitrary: s) (simp_all add: thread_unblock_def)

lemma next_wakeup_tick_wake_loop: "next_wakeup_tick (wake_loop xs s) = next_wakeup_tick s"
  by (induction xs arbitrary: s) (simp_all add: thread_unblock_def)

lemma sleeping_list_wake_loop:
  "sleeping_list (wake_loop xs s) = dropWhile (\<lambda>t. wakeup_tick t \<le> ticks s) xs"
  by (induction xs arbitrary: s) (simp_all add: thread_unblock_def)

lemma unblock_log_wake_loop:
  "unblock_log (wake_loop xs s) =
     unblock_log s @ map (\<lambda>t. (t, ticks s)) (takeWhile (\<lambda>t. wakeup_tick t \<le> ticks s) xs)"
  by (induction xs arbitrary: s) (simp_all add: thread_unblock_def)

lemma status_wake_loop:
  "status (wake_loop xs s) c =
     (if c \<in> tid ` set (takeWhile (\<lambda>t. wakeup_tick t \<le> ticks s) xs)
      then THREAD_READY else status s c)"
  by (induction xs arbitrary: s) (auto simp add: thread_unblock_def)


lemma sorted_map_dropWhile:
  "sorted (map f xs) \<Longrightarrow> sorted (map f (dropWhile P xs))"
  by (induction xs) auto

lemma distinct_map_dropWhile:
  "distinct (map f xs) \<Longrightarrow> distinct (map f (dropWhile P xs))"
  by (induction xs) auto


lemma takeWhile_dropWhile_tids:
  assumes "distinct (map tid xs)"
  shows "c \<in> tid ` set (dropWhile P xs) \<longleftrightarrow>
         c \<in> tid ` set xs \<and> c \<notin> tid ` set (takeWhile P xs)"
proof -
  have "distinct (map tid (takeWhile P xs @ dropWhile P xs))"
    using assms by simp
  then have "tid ` set (takeWhile P xs) \<inter> tid ` set (dropWhile P xs) = {}"
    unfolding map_append distinct_append by simp
  moreover have "set xs = set (takeWhile P xs) \<union> set (dropWhile P xs)"
    by (metis set_append takeWhile_dropWhile_id)
  ultimately show ?thesis by auto
qed


subsection \<open>What each operation does to the fields\<close>

lemma wrap64_range: "- (2 ^ 63) \<le> wrap64 k" "wrap64 k \<le> INT64_MAX"
proof -
  have "0 \<le> (k + 2 ^ 63) mod 2 ^ 64" "(k + 2 ^ 63) mod 2 ^ 64 < 2 ^ 64"
    by simp_all
  then show "- (2 ^ 63) \<le> wrap64 k" "wrap64 k \<le> INT64_MAX"
    by (simp_all add: wrap64_def INT64_MAX_def)
qed


lemma timer_sleep_fields:
  assumes "0 < n"
  shows "sleeping_list (timer_sleep cur n s) =
           list_insert_ordered (sleeping_list s)
             \<lparr>tid = cur, wakeup_tick = wrap64 (ticks s + n)\<rparr> wakeup_time_less"
    and "next_wakeup_tick (timer_sleep cur n s) =
           (if wrap64 (ticks s + n) < next_wakeup_tick s then wrap64 (ticks s + n)
            else next_wakeup_tick s)"
    and "status (timer_sleep cur n s) = (status s)(cur := THREAD_BLOCKED)"
    and "ticks (timer_sleep cur n s) = ticks s"
    and "unblock_log (timer_sleep cur n s) = unblock_log s"
    and "scan_compares (timer_sleep cur n s) = scan_compares s"
  using assms by (simp_all add: timer_sleep_def thread_block_def Let_def)

lemma check_sleeping_threads_cases:
  "check_sleeping_threads s =
     (wake_loop (sleeping_list s) s)\<lparr>next_wakeup_tick :=
       (case dropWhile (\<lambda>t. wakeup_tick t \<le> ticks s) (sleeping_list s) of
          [] \<Rightarrow> INT64_MAX | t # _ \<Rightarrow> wakeup_tick t)\<rparr>"
proof -
  have "sleeping_list (wake_loop (sleeping_list s) s) =
          dropWhile (\<lambda>t. wakeup_tick t \<le> ticks s) (sleeping_list s)"
    by (rule sleeping_list_wake_loop)
  then show ?thesis
    unfolding check_sleeping_threads_def Let_def
    by (cases "dropWhile (\<lambda>t. wakeup_tick t \<le> ticks s) (sleeping_list s)")
      (simp_all only: list.case)
qed

lemma check_sleeping_threads_fields:
  "sleeping_list (check_sleeping_threads s) =
     dropWhile (\<lambda>t. wakeup_tick t \<le> ticks s) (sleeping_list s)"
  "next_wakeup_tick (check_sleeping_threads s) =
     (case dropWhile (\<lambda>t. wakeup_tick t \<le> ticks s) (sleeping_list s) of
        [] \<Rightarrow> INT64_MAX | t # _ \<Rightarrow> wakeup_tick t)"
  "status (check_sleeping_threads s) c =
     (if c \<in> tid ` set (takeWhile (\<lambda>t. wakeup_tick t \<le> ticks s) (sleeping_list s))
      then THREAD_READY else status s c)"
  "ticks (check_sleeping_threads s) = ticks s"
  "unblock_log (check_sleeping_threads s) =
     unblock_log s @ map (\<lambda>t. (t, ticks s))
       (takeWhile (\<lambda>t. wakeup_tick t \<le> ticks s) (sleeping_list s))"
  unfolding check_sleeping_threads_cases
  by (simp_all add: sleeping_list_wake_loop status_wake_loop ticks_wake_loop
      unblock_log_wake_loop)

lemma timer_interrupt_skip:
  "ticks s + 1 < next_wakeup_tick s \<Longrightarrow> timer_interrupt s = s\<lparr>ticks := ticks s + 1\<rparr>"
  by (simp add: timer_interrupt_def thread_tick_def Let_def)

lemma timer_interrupt_scan:
  "next_wakeup_tick s \<le> ticks s + 1 \<Longrightarrow>
   timer_interrupt s = check_sleeping_threads (s\<lparr>ticks := ticks s + 1\<rparr>)"
  by (simp add: timer_interrupt_def thread_tick_def Let_def)

subsection \<open>The invariant is kept by every step\<close>

lemma alarm_inv_boot: "alarm_inv boot"
  by (simp add: alarm_inv_def boot_def)

lemma alarm_inv_sleep:
  assumes inv: "alarm_inv s" and n: "0 < n" and run: "status s cur \<noteq> THREAD_BLOCKED"
  shows "alarm_inv (timer_sleep cur n s)"
proof -
  let ?w = "wrap64 (ticks s + n)"
  let ?xs = "sleeping_list s"
  let ?s' = "timer_sleep cur n s"
  note f = timer_sleep_fields [OF n, of cur s]
  have fit: "?w \<le> INT64_MAX" by (rule wrap64_range)
  have fresh: "cur \<notin> tid ` set ?xs"
    using inv run by (simp add: alarm_inv_def)
  have "0 \<le> ticks ?s'"
    using inv by (simp add: f(4) alarm_inv_def)
  moreover have "sorted (map wakeup_tick (sleeping_list ?s'))"
    using inv by (simp add: f(1) alarm_inv_def sorted_list_insert_ordered)
  moreover have "distinct (map tid (sleeping_list ?s'))"
    using inv fresh by (simp add: f(1) alarm_inv_def distinct_list_insert_ordered)
  moreover have "\<forall>c. status ?s' c = THREAD_BLOCKED \<longleftrightarrow> c \<in> tid ` set (sleeping_list ?s')"
    using inv by (simp add: f(1,3) alarm_inv_def set_list_insert_ordered)
  moreover have "next_wakeup_tick ?s' =
      (case sleeping_list ?s' of [] \<Rightarrow> INT64_MAX | t # _ \<Rightarrow> wakeup_tick t)"
  proof (cases ?xs)
    case Nil
    with inv fit show ?thesis by (simp add: f(1,2) alarm_inv_def)
  next
    case (Cons x ys)
    with inv show ?thesis
      by (simp add: f(1,2) alarm_inv_def wakeup_time_less_def)
  qed
  moreover have "\<forall>t \<in> set (sleeping_list ?s'). wakeup_tick t \<le> INT64_MAX"
    using inv fit by (simp add: f(1) alarm_inv_def set_list_insert_ordered)
  moreover have "\<forall>(t, at) \<in> set (unblock_log ?s'). wakeup_tick t \<le> at \<and> at \<le> ticks ?s'"
    using inv by (simp add: f(4,5) alarm_inv_def)
  ultimately show ?thesis unfolding alarm_inv_def by blast
qed


lemma alarm_inv_tick_skip:
  assumes inv: "alarm_inv s"
  shows "alarm_inv (s\<lparr>ticks := ticks s + 1\<rparr>)"
proof -
  have "\<forall>(t, at) \<in> set (unblock_log s). wakeup_tick t \<le> at \<and> at \<le> ticks s + 1"
    using inv by (fastforce simp add: alarm_inv_def)
  then show ?thesis
    using inv by (simp add: alarm_inv_def)
qed

lemma alarm_inv_tick_scan:
  assumes inv: "alarm_inv s"
  shows "alarm_inv (check_sleeping_threads (s\<lparr>ticks := ticks s + 1\<rparr>))"
proof -
  let ?s1 = "s\<lparr>ticks := ticks s + 1\<rparr>"
  let ?s' = "check_sleeping_threads ?s1"
  let ?P = "\<lambda>t. wakeup_tick t \<le> ticks s + 1"
  let ?xs = "sleeping_list s"
  note f = check_sleeping_threads_fields [of ?s1]
  have sl: "sleeping_list ?s' = dropWhile ?P ?xs" by (simp add: f(1))
  have lg: "unblock_log ?s' = unblock_log s @ map (\<lambda>t. (t, ticks s + 1)) (takeWhile ?P ?xs)"
    by (simp add: f(5))
  have srt: "sorted (map wakeup_tick ?xs)" and dst: "distinct (map tid ?xs)"
    using inv by (simp_all add: alarm_inv_def)
  have "0 \<le> ticks ?s'"
    using inv by (simp add: f(4) alarm_inv_def)
  moreover have "sorted (map wakeup_tick (sleeping_list ?s'))"
    unfolding sl using srt by (rule sorted_map_dropWhile)
  moreover have "distinct (map tid (sleeping_list ?s'))"
    unfolding sl using dst by (rule distinct_map_dropWhile)
  moreover have "\<forall>c. status ?s' c = THREAD_BLOCKED \<longleftrightarrow> c \<in> tid ` set (sleeping_list ?s')"
  proof
    fix c
    have "status s c = THREAD_BLOCKED \<longleftrightarrow> c \<in> tid ` set ?xs"
      using inv by (simp add: alarm_inv_def)
    then show "status ?s' c = THREAD_BLOCKED \<longleftrightarrow> c \<in> tid ` set (sleeping_list ?s')"
      unfolding sl takeWhile_dropWhile_tids [OF dst] by (simp add: f(3))
  qed
  moreover have "next_wakeup_tick ?s' =
      (case sleeping_list ?s' of [] \<Rightarrow> INT64_MAX | t # _ \<Rightarrow> wakeup_tick t)"
    unfolding sl by (simp add: f(2))
  moreover have "\<forall>t \<in> set (sleeping_list ?s'). wakeup_tick t \<le> INT64_MAX"
  proof
    fix t assume "t \<in> set (sleeping_list ?s')"
    then have "t \<in> set ?xs" unfolding sl by (rule set_dropWhileD)
    then show "wakeup_tick t \<le> INT64_MAX" using inv by (simp add: alarm_inv_def)
  qed
  moreover have "\<forall>(t, at) \<in> set (unblock_log ?s'). wakeup_tick t \<le> at \<and> at \<le> ticks ?s'"
  proof -
    have "\<forall>(t, at) \<in> set (unblock_log s). wakeup_tick t \<le> at \<and> at \<le> ticks s + 1"
      using inv by (fastforce simp add: alarm_inv_def)
    moreover have "\<forall>t \<in> set (takeWhile ?P ?xs). wakeup_tick t \<le> ticks s + 1"
      by (auto dest: set_takeWhileD)
    ultimately show ?thesis unfolding lg by (auto simp add: f(4))
  qed
  ultimately show ?thesis unfolding alarm_inv_def by blast
qed

lemma alarm_inv_step:
  assumes "alarm_inv s" and "step e s = Some s'"
  shows "alarm_inv s'"
proof (cases e)
  case (Sleep cur n)
  show ?thesis
  proof (cases "0 < n")
    case True
    with assms Sleep show ?thesis
      by (auto simp add: alarm_inv_sleep split: if_splits)
  next
    case False
    with assms Sleep show ?thesis
      by (auto simp add: timer_sleep_def split: if_splits)
  qed
next
  case Tick
  show ?thesis
  proof (cases "ticks s + 1 < next_wakeup_tick s")
    case True
    with assms Tick show ?thesis
      by (auto simp add: timer_interrupt_skip alarm_inv_tick_skip split: if_splits)
  next
    case False
    with assms Tick show ?thesis
      by (auto simp add: timer_interrupt_scan alarm_inv_tick_scan split: if_splits)
  qed
qed

lemma alarm_inv_exec:
  "alarm_inv s \<Longrightarrow> exec es s = Some s' \<Longrightarrow> alarm_inv s'"
  by (induction es arbitrary: s) (auto split: option.splits dest: alarm_inv_step)


subsection \<open>Executions without overflow keep every sleeper due in the future\<close>








subsection \<open>Sleepers are never forgotten\<close>




lemma sorted_front_Min:
  fixes f :: "'a \<Rightarrow> int"
  assumes "sorted (map f (x # xs))"
  shows "Min (f ` set (x # xs)) = f x"
proof (rule Min_eqI)
  show "finite (f ` set (x # xs))" by simp
  show "f x \<le> y" if "y \<in> f ` set (x # xs)" for y
    using assms that by auto
  show "f x \<in> f ` set (x # xs)" by simp
qed

lemmas model_defs =
  boot_def timer_sleep_def timer_interrupt_def check_sleeping_threads_def thread_block_def
  thread_unblock_def thread_tick_def wakeup_time_less_def INT64_MAX_def wrap64_def Let_def







text \<open>
  Claim C3. After every execution from boot, hence after every insertion by \<open>timer_sleep\<close>
  and every removal by the wake-up scan, \<open>next_wakeup_tick\<close> is the least \<open>wakeup_tick\<close> on
  the sleeping list, or \<open>INT64_MAX\<close> when the list is empty.
\<close>

theorem cache_is_minimum:
  assumes "exec es boot = Some s"
  shows "next_wakeup_tick s =
           (if sleeping_list s = [] then INT64_MAX
            else Min (wakeup_tick ` set (sleeping_list s)))"
proof -
  have inv: "alarm_inv s"
    using alarm_inv_exec [OF alarm_inv_boot assms] .
  show ?thesis
  proof (cases "sleeping_list s")
    case Nil
    with inv show ?thesis by (simp add: alarm_inv_def)
  next
    case (Cons x xs)
    with inv have "sorted (map wakeup_tick (x # xs))" by (simp add: alarm_inv_def)
    then have "Min (wakeup_tick ` set (x # xs)) = wakeup_tick x"
      by (rule sorted_front_Min)
    with inv Cons show ?thesis by (simp add: alarm_inv_def)
  qed
qed

text \<open>
  The scenario of the specification: sleeps of 5, 1 and 5 ticks at clock 0, then one tick.
  Threads 1 and 3 remain and the cache holds their wake-up tick.
\<close>

theorem cache_is_minimum_witness:
  "exec [Sleep 1 5, Sleep 2 1, Sleep 3 5, Tick] boot \<noteq> None
   \<and> sleeping_list (the (exec [Sleep 1 5, Sleep 2 1, Sleep 3 5, Tick] boot))
       = [\<lparr>tid = 1, wakeup_tick = 5\<rparr>, \<lparr>tid = 3, wakeup_tick = 5\<rparr>]
   \<and> next_wakeup_tick (the (exec [Sleep 1 5, Sleep 2 1, Sleep 3 5, Tick] boot))
       = Min (wakeup_tick ` set
           (sleeping_list (the (exec [Sleep 1 5, Sleep 2 1, Sleep 3 5, Tick] boot))))"
proof -
  have a: "exec [Sleep 1 5, Sleep 2 1, Sleep 3 5, Tick] boot \<noteq> None"
    by (simp add: model_defs)
  have l: "sleeping_list (the (exec [Sleep 1 5, Sleep 2 1, Sleep 3 5, Tick] boot))
       = [\<lparr>tid = 1, wakeup_tick = 5\<rparr>, \<lparr>tid = 3, wakeup_tick = 5\<rparr>]"
    by (simp add: model_defs)
  from cache_is_minimum [OF option.collapse [OF a, symmetric]] a l
  show ?thesis by simp
qed

text \<open>
  Claim C4. For \<open>n \<le> 0\<close>, \<open>timer_sleep\<close> returns the state it was given: the sleeping list
  and \<open>next_wakeup_tick\<close> are unchanged and the caller's status is what it was, so the
  caller is not blocked by the call.
\<close>

theorem timer_sleep_nonpositive:
  assumes "n \<le> 0"
  shows "timer_sleep cur n s = s
         \<and> sleeping_list (timer_sleep cur n s) = sleeping_list s
         \<and> next_wakeup_tick (timer_sleep cur n s) = next_wakeup_tick s
         \<and> status (timer_sleep cur n s) cur = status s cur"
  using assms by (simp add: timer_sleep_def)

text \<open>
  A sleep of 0 ticks at boot.
\<close>

theorem timer_sleep_nonpositive_witness:
  "(0::int) \<le> 0 \<and> timer_sleep 1 0 boot = boot
   \<and> sleeping_list (timer_sleep 1 0 boot) = []
   \<and> next_wakeup_tick (timer_sleep 1 0 boot) = INT64_MAX
   \<and> status (timer_sleep 1 0 boot) 1 = THREAD_READY"
  using timer_sleep_nonpositive [of 0 1 boot] by (simp add: boot_def)

text \<open>
  Claim C5. After every execution from boot, the sleeping list is sorted ascending by
  \<open>wakeup_tick\<close> and no thread occurs in it twice.
\<close>

theorem sleeping_list_sorted_distinct:
  assumes "exec es boot = Some s"
  shows "sorted (map wakeup_tick (sleeping_list s)) \<and> distinct (map tid (sleeping_list s))"
  using alarm_inv_exec [OF alarm_inv_boot assms] by (simp add: alarm_inv_def)

text \<open>
  Thread 2 is woken at tick 1 and sleeps again; it is inserted in front of the two
  threads that wake at tick 5.
\<close>

theorem sleeping_list_sorted_distinct_witness:
  "exec [Sleep 1 5, Sleep 2 1, Sleep 3 5, Tick, Sleep 2 2] boot \<noteq> None
   \<and> sleeping_list (the (exec [Sleep 1 5, Sleep 2 1, Sleep 3 5, Tick, Sleep 2 2] boot))
       = [\<lparr>tid = 2, wakeup_tick = 3\<rparr>, \<lparr>tid = 1, wakeup_tick = 5\<rparr>,
          \<lparr>tid = 3, wakeup_tick = 5\<rparr>]
   \<and> sorted (map wakeup_tick
        (sleeping_list (the (exec [Sleep 1 5, Sleep 2 1, Sleep 3 5, Tick, Sleep 2 2] boot))))
   \<and> distinct (map tid
        (sleeping_list (the (exec [Sleep 1 5, Sleep 2 1, Sleep 3 5, Tick, Sleep 2 2] boot))))"
proof -
  have a: "exec [Sleep 1 5, Sleep 2 1, Sleep 3 5, Tick, Sleep 2 2] boot \<noteq> None"
    by (simp add: model_defs)
  have l: "sleeping_list (the (exec [Sleep 1 5, Sleep 2 1, Sleep 3 5, Tick, Sleep 2 2] boot))
       = [\<lparr>tid = 2, wakeup_tick = 3\<rparr>, \<lparr>tid = 1, wakeup_tick = 5\<rparr>,
          \<lparr>tid = 3, wakeup_tick = 5\<rparr>]"
    by (simp add: model_defs)
  from sleeping_list_sorted_distinct [OF option.collapse [OF a, symmetric]] a l
  show ?thesis by blast
qed

text \<open>
  The scan, when it runs, compares once for each thread it wakes and once more for the
  first thread it leaves on the list.
\<close>

lemma scan_compares_wake_loop:
  "scan_compares (wake_loop xs s) =
     scan_compares s + length (takeWhile (\<lambda>t. wakeup_tick t \<le> ticks s) xs)
       + (if dropWhile (\<lambda>t. wakeup_tick t \<le> ticks s) xs = [] then 0 else 1)"
  by (induction xs arbitrary: s) (simp_all add: thread_unblock_def)

text \<open>
  Claim C6. When the incremented clock is below \<open>next_wakeup_tick\<close>, \<open>timer_interrupt\<close> only
  advances the clock: the scan is not run, so the count of comparisons with list entries,
  the sleeping list and the cache are what they were.
\<close>

theorem timer_interrupt_skips_scan:
  assumes "ticks s + 1 < next_wakeup_tick s"
  shows "timer_interrupt s = s\<lparr>ticks := ticks s + 1\<rparr>
         \<and> scan_compares (timer_interrupt s) = scan_compares s
         \<and> sleeping_list (timer_interrupt s) = sleeping_list s
         \<and> next_wakeup_tick (timer_interrupt s) = next_wakeup_tick s"
  using assms by (simp add: timer_interrupt_skip)

text \<open>
  One thread sleeps five ticks at boot; the first tick leaves the list alone and compares
  nothing.
\<close>

theorem timer_interrupt_skips_scan_witness:
  "ticks (timer_sleep 1 5 boot) + 1 < next_wakeup_tick (timer_sleep 1 5 boot)
   \<and> scan_compares (timer_interrupt (timer_sleep 1 5 boot)) = 0
   \<and> sleeping_list (timer_interrupt (timer_sleep 1 5 boot)) = [\<lparr>tid = 1, wakeup_tick = 5\<rparr>]
   \<and> next_wakeup_tick (timer_interrupt (timer_sleep 1 5 boot)) = 5"
proof -
  have a: "ticks (timer_sleep 1 5 boot) + 1 < next_wakeup_tick (timer_sleep 1 5 boot)"
    by (simp add: model_defs)
  from timer_interrupt_skips_scan [OF a] a show ?thesis
    by (simp add: model_defs)
qed

end
